theory Spec2Isabelle
  imports Complex_Main "HOL-Library.AList" "HOL-Library.Multiset"
begin

section \<open>Values, dictionaries and errors\<close>

text \<open>
  A task is a Python dictionary from field names to values of any type. The values that
  occur are \<open>None\<close>, booleans, integers, floats, strings, calendar dates and lists.
  A \<open>datetime.date\<close> is identified with its proleptic Gregorian ordinal, so that
  \<open>(d1 - d2).days\<close> is the difference of the ordinals. A Python \<open>float\<close> is
  idealised as a real number: arithmetic is exact, there is neither rounding nor overflow,
  and \<open>nan\<close> and \<open>inf\<close> do not exist. A string is a list of characters, one per code point
  below 256.
\<close>

datatype date = Date (toordinal: int)

datatype pyval =
    PNone
  | PBool bool
  | PInt int
  | PFloat real
  | PStr string
  | PDate date
  | PList "pyval list"

datatype pytype = NoneType | TBool | TInt | TFloat | TStr | TDate | TList

fun type_of :: "pyval \<Rightarrow> pytype" where
  "type_of PNone = NoneType"
| "type_of (PBool b) = TBool"
| "type_of (PInt i) = TInt"
| "type_of (PFloat r) = TFloat"
| "type_of (PStr s) = TStr"
| "type_of (PDate d) = TDate"
| "type_of (PList xs) = TList"

text \<open>
  The two \<open>ValueError\<close>s raised by the date normaliser carry a message built from the
  offending value (\<open>f"Invalid date string: {d!r}"\<close>) or from its type
  (\<open>f"Invalid date type: {type(d)}"\<close>); the message is kept as the value or type it
  formats. Every other \<open>ValueError\<close> comes from a built-in conversion.
\<close>

datatype message = Invalid_date_string string | Invalid_date_type pytype | Builtin_message

datatype error =
    ValueError message
  | TypeError
  | KeyError string
  | ZeroDivisionError

type_synonym task = "string \<rightharpoonup> pyval"

text \<open>\<open>t.get(k)\<close> and \<open>t.get(k, default)\<close>.\<close>

definition dict_get :: "task \<Rightarrow> string \<Rightarrow> pyval" where
  "dict_get t k = (case t k of None \<Rightarrow> PNone | Some v \<Rightarrow> v)"

definition dict_get_default :: "task \<Rightarrow> string \<Rightarrow> pyval \<Rightarrow> pyval" where
  "dict_get_default t k d = (case t k of None \<Rightarrow> d | Some v \<Rightarrow> v)"

text \<open>Truth value of an object, and \<open>x or y\<close>.\<close>

fun truthy :: "pyval \<Rightarrow> bool" where
  "truthy PNone = False"
| "truthy (PBool b) = b"
| "truthy (PInt i) = (i \<noteq> 0)"
| "truthy (PFloat r) = (r \<noteq> 0)"
| "truthy (PStr s) = (s \<noteq> [])"
| "truthy (PDate d) = True"
| "truthy (PList xs) = (xs \<noteq> [])"

definition py_or :: "pyval \<Rightarrow> pyval \<Rightarrow> pyval" where
  "py_or x y = (if truthy x then x else y)"

text \<open>
  The built-ins \<open>int(x)\<close> and \<open>float(x)\<close>. What they make of a string is the
  interpreter's business and is a parameter: \<open>str_int s\<close> and \<open>str_float s\<close> are
  \<open>None\<close> where the built-in raises \<open>ValueError\<close>. \<open>int\<close> of a float truncates
  towards zero.
\<close>

fun py_int :: "(string \<Rightarrow> int option) \<Rightarrow> pyval \<Rightarrow> error + int" where
  "py_int str_int PNone = Inl TypeError"
| "py_int str_int (PBool b) = Inr (if b then 1 else 0)"
| "py_int str_int (PInt i) = Inr i"
| "py_int str_int (PFloat r) = Inr (if 0 \<le> r then \<lfloor>r\<rfloor> else \<lceil>r\<rceil>)"
| "py_int str_int (PStr s) =
     (case str_int s of None \<Rightarrow> Inl (ValueError Builtin_message) | Some i \<Rightarrow> Inr i)"
| "py_int str_int (PDate d) = Inl TypeError"
| "py_int str_int (PList xs) = Inl TypeError"

fun py_float :: "(string \<Rightarrow> real option) \<Rightarrow> pyval \<Rightarrow> error + real" where
  "py_float str_float PNone = Inl TypeError"
| "py_float str_float (PBool b) = Inr (if b then 1 else 0)"
| "py_float str_float (PInt i) = Inr (of_int i)"
| "py_float str_float (PFloat r) = Inr r"
| "py_float str_float (PStr s) =
     (case str_float s of None \<Rightarrow> Inl (ValueError Builtin_message) | Some r \<Rightarrow> Inr r)"
| "py_float str_float (PDate d) = Inl TypeError"
| "py_float str_float (PList xs) = Inl TypeError"

text \<open>\<open>len(x)\<close> and the elements a \<open>for\<close> loop over \<open>x\<close> sees.\<close>

fun py_len :: "pyval \<Rightarrow> error + nat" where
  "py_len (PStr s) = Inr (length s)"
| "py_len (PList xs) = Inr (length xs)"
| "py_len v = Inl TypeError"

fun py_iter :: "pyval \<Rightarrow> error + pyval list" where
  "py_iter (PStr s) = Inr (map (\<lambda>c. PStr [c]) s)"
| "py_iter (PList xs) = Inr xs"
| "py_iter v = Inl TypeError"

text \<open>
  \<open>round(x, n)\<close> rounds to \<open>n\<close> decimals, a tie going to the even neighbour.
\<close>

definition round_half_even :: "real \<Rightarrow> int" where
  "round_half_even x =
     (let f = \<lfloor>x\<rfloor>; d = x - of_int f
      in if d < 1 / 2 then f
         else if 1 / 2 < d then f + 1
         else if even f then f else f + 1)"

definition py_round :: "real \<Rightarrow> nat \<Rightarrow> real" where
  "py_round x n = of_int (round_half_even (x * 10 ^ n)) / 10 ^ n"


section \<open>scoring.py\<close>

subsection \<open>The date normaliser\<close>

text \<open>
  \<open>_ensure_date\<close>. The parameter \<open>fromiso s\<close> is \<open>datetime.fromisoformat(s).date()\<close>,
  \<open>None\<close> where \<open>fromisoformat\<close> raises. \<open>d.split("T", 1)[0]\<close> is the part of
  \<open>d\<close> before its first \<open>T\<close>, all of \<open>d\<close> when there is none.
\<close>

definition before_T :: "string \<Rightarrow> string" where
  "before_T d = takeWhile (\<lambda>c. c \<noteq> CHR ''T'') d"

fun ensure_date :: "(string \<Rightarrow> date option) \<Rightarrow> pyval \<Rightarrow> error + date" where
  "ensure_date fromiso (PDate d) = Inr d"
| "ensure_date fromiso (PStr d) =
     (case fromiso d of
        Some r \<Rightarrow> Inr r
      | None \<Rightarrow>
         (case fromiso (before_T d) of
            Some r \<Rightarrow> Inr r
          | None \<Rightarrow> Inl (ValueError (Invalid_date_string d))))"
| "ensure_date fromiso d = Inl (ValueError (Invalid_date_type (type_of d)))"

subsection \<open>Urgency and effort\<close>

text \<open>\<open>calculate_urgency\<close>; \<open>today\<close> is what \<open>date.today()\<close> returns at the call.\<close>

definition calculate_urgency :: "date \<Rightarrow> date \<Rightarrow> real" where
  "calculate_urgency today due_date =
     (let days_left = toordinal due_date - toordinal today
      in if days_left < 0 then 10
         else if days_left = 0 then 9
         else if days_left \<le> 3 then 7
         else if days_left \<le> 7 then 5
         else 3)"

text \<open>
  \<open>calculate_effort_score\<close>: a value \<open>float\<close> rejects counts as 0 hours; the division
  raises \<open>ZeroDivisionError\<close> at \<open>h = -1\<close>.
\<close>

definition calculate_effort_score :: "(string \<Rightarrow> real option) \<Rightarrow> pyval \<Rightarrow> error + real" where
  "calculate_effort_score str_float hours =
     (let h = (case py_float str_float hours of Inl e \<Rightarrow> 0 | Inr r \<Rightarrow> r)
      in if h + 1 = 0 then Inl ZeroDivisionError else Inr (10 / (h + 1)))"

subsection \<open>Composite priority\<close>

text \<open>
  \<open>calculate_priority\<close>, statement by statement; the first statement that raises decides
  the error. \<open>weights\<close> is a dictionary from names to floats.
\<close>

definition weight :: "(string \<rightharpoonup> real) \<Rightarrow> string \<Rightarrow> real \<Rightarrow> real" where
  "weight weights k d = (case weights k of None \<Rightarrow> d | Some w \<Rightarrow> w)"

definition calculate_priority ::
  "date \<Rightarrow> (string \<Rightarrow> date option) \<Rightarrow> (string \<Rightarrow> real option) \<Rightarrow>
   task \<Rightarrow> task list \<Rightarrow> (string \<rightharpoonup> real) \<Rightarrow> error + real" where
  "calculate_priority today fromiso str_float task all_tasks weights =
     (case task ''due_date'' of
        None \<Rightarrow> Inl (KeyError ''due_date'')
      | Some dv \<Rightarrow>
     (case ensure_date fromiso dv of
        Inl e \<Rightarrow> Inl e
      | Inr due \<Rightarrow>
     (let urgency = calculate_urgency today due in
     (case py_float str_float (dict_get_default task ''importance'' (PInt 1)) of
        Inl e \<Rightarrow> Inl e
      | Inr importance \<Rightarrow>
     (case py_float str_float (dict_get_default task ''estimated_hours'' (PInt 0)) of
        Inl e \<Rightarrow> Inl e
      | Inr hours \<Rightarrow>
     (case calculate_effort_score str_float (PFloat hours) of
        Inl e \<Rightarrow> Inl e
      | Inr effort_score \<Rightarrow>
     (case py_len (py_or (dict_get task ''dependencies'') (PList [])) of
        Inl e \<Rightarrow> Inl e
      | Inr dependency_count \<Rightarrow>
         Inr (py_round
               (weight weights ''urgency'' (4 / 10) * urgency
                + weight weights ''importance'' (4 / 10) * importance
                + weight weights ''effort'' (15 / 100) * effort_score
                + weight weights ''dependency'' (5 / 100) * real dependency_count)
               3))))))))"


subsection \<open>The cycle detector\<close>

text \<open>
  The adjacency map is a dictionary that is read in insertion order, so it is an
  association list: \<open>graph[tid] = seen_deps\<close> replaces the value of a key that is
  there, in place, and appends a new key. A task whose id \<open>int\<close> rejects is skipped; a
  dependency \<open>int\<close> rejects is dropped; a dependency field that is true and not
  iterable raises.
\<close>

type_synonym graph = "(int \<times> int list) list"

text \<open>The inner loop over \<open>deps_raw\<close>, with \<open>seen_deps\<close> as it grows.\<close>

fun collect_deps :: "(string \<Rightarrow> int option) \<Rightarrow> pyval list \<Rightarrow> int list \<Rightarrow> int list" where
  "collect_deps str_int [] seen_deps = seen_deps"
| "collect_deps str_int (d # ds) seen_deps =
     (case py_int str_int d of
        Inl e \<Rightarrow> collect_deps str_int ds seen_deps
      | Inr di \<Rightarrow>
          if di \<notin> set seen_deps then collect_deps str_int ds (seen_deps @ [di])
          else collect_deps str_int ds seen_deps)"

definition task_id :: "(string \<Rightarrow> int option) \<Rightarrow> nat \<Rightarrow> task \<Rightarrow> error + int" where
  "task_id str_int idx t = py_int str_int (py_or (dict_get t ''id'') (PInt (int idx + 1)))"

fun build_graph ::
  "(string \<Rightarrow> int option) \<Rightarrow> nat \<Rightarrow> task list \<Rightarrow> graph \<Rightarrow> error + graph" where
  "build_graph str_int idx [] graph = Inr graph"
| "build_graph str_int idx (t # ts) graph =
     (case task_id str_int idx t of
        Inl e \<Rightarrow> build_graph str_int (Suc idx) ts graph
      | Inr tid \<Rightarrow>
         (case py_iter (py_or (dict_get t ''dependencies'') (PList [])) of
            Inl e \<Rightarrow> Inl e
          | Inr deps_raw \<Rightarrow>
              build_graph str_int (Suc idx) ts
                (AList.update tid (collect_deps str_int deps_raw []) graph)))"

text \<open>\<open>graph.get(node, [])\<close>.\<close>

definition graph_get :: "graph \<Rightarrow> int \<Rightarrow> int list" where
  "graph_get graph node = (case map_of graph node of None \<Rightarrow> [] | Some ds \<Rightarrow> ds)"

text \<open>
  \<open>min(seq, key=key)\<close> on the sequence \<open>best # xs\<close>: the first element whose key is
  least. In \<open>canonical\<close> the sequence is \<open>range(len(cycle) - 1)\<close>, which starts with 0
  because \<open>len(cycle) > 1\<close>. The slice \<open>cycle[min_idx:-1]\<close> is \<open>cycle\<close> without its
  last element, from \<open>min_idx\<close> on.
\<close>

fun py_min_key :: "('a \<Rightarrow> int) \<Rightarrow> 'a \<Rightarrow> 'a list \<Rightarrow> 'a" where
  "py_min_key key best [] = best"
| "py_min_key key best (x # xs) =
     (if key x < key best then py_min_key key x xs else py_min_key key best xs)"

definition canonical :: "int list \<Rightarrow> int list" where
  "canonical cycle =
     (if length cycle > 1 then
        (let min_idx = py_min_key (\<lambda>i. cycle ! i) 0 [1..<length cycle - 1]
         in drop min_idx (butlast cycle) @ take min_idx cycle @ [cycle ! min_idx])
      else cycle)"

text \<open>
  The four variables the nested function \<open>dfs\<close> shares with its caller. \<open>dfs\<close> is the
  source's recursive function; \<open>dfs_neighbours\<close> is its loop over the neighbours of a
  node. \<open>stack.index(node)\<close> is the first position of \<open>node\<close>, so \<open>stack[idx:]\<close>
  drops the elements before it. The interpreter's limit on the depth of recursion is
  left out.
\<close>

record dfs_state =
  visited :: "int set"
  stack :: "int list"
  cycles :: "int list list"
  seen_cycles :: "int list set"

text \<open>Every id of the graph: the bound of the recursion.\<close>

definition nodes :: "graph \<Rightarrow> int set" where
  "nodes graph = set (map fst graph) \<union> (\<Union>ds \<in> set (map snd graph). set ds)"

text \<open>
  The recursion ends because a call that goes on marks an unvisited node: the number of
  unvisited ids of the graph falls, and within one loop the neighbours left to do.
\<close>

definition dfs_rank ::
  "graph \<times> int \<times> dfs_state + graph \<times> int list \<times> dfs_state \<Rightarrow> nat \<times> nat" where
  "dfs_rank x =
     (case x of
        Inl (g, n, s) \<Rightarrow> (card (nodes g - visited s), 1)
      | Inr (g, ns, s) \<Rightarrow> (card (nodes g - visited s), if ns = [] then 0 else length ns + 1))"

function dfs :: "graph \<Rightarrow> int \<Rightarrow> dfs_state \<Rightarrow> dfs_state"
  and dfs_neighbours :: "graph \<Rightarrow> int list \<Rightarrow> dfs_state \<Rightarrow> dfs_state" where
  "dfs graph node s =
     (if node \<in> set (stack s) then
        (let cycle = dropWhile (\<lambda>x. x \<noteq> node) (stack s) @ [node];
             ordered = canonical cycle
         in if ordered \<notin> seen_cycles s
            then s\<lparr>seen_cycles := insert ordered (seen_cycles s),
                   cycles := cycles s @ [ordered]\<rparr>
            else s)
      else if node \<in> visited s then s
      else
        (let s1 = s\<lparr>visited := insert node (visited s), stack := stack s @ [node]\<rparr>;
             s2 = dfs_neighbours graph (graph_get graph node) s1
         in s2\<lparr>stack := butlast (stack s2)\<rparr>))"
| "dfs_neighbours graph [] s = s"
| "dfs_neighbours graph (neighbour # rest) s =
     dfs_neighbours graph rest (dfs graph neighbour s)"
  by pat_completeness auto

text \<open>Termination: \<open>visited\<close> only grows, also across the nested call.\<close>

lemma graph_get_nodes: "graph_get g n \<noteq> [] \<Longrightarrow> n \<in> nodes g"
  by (auto simp: graph_get_def nodes_def split: option.splits dest: map_of_SomeD
      intro: rev_image_eqI)

lemma finite_nodes: "finite (nodes g)"
  by (simp add: nodes_def)

lemma dfs_visited_mono_dom:
  "dfs_dfs_neighbours_dom (Inl (g, n, s)) \<Longrightarrow> visited s \<subseteq> visited (dfs g n s)"
  "dfs_dfs_neighbours_dom (Inr (g, ns, s)) \<Longrightarrow> visited s \<subseteq> visited (dfs_neighbours g ns s)"
proof (induct g n s and g ns s rule: dfs_dfs_neighbours.pinduct)
  case (1 graph node s)
  then show ?case
    by (auto simp: dfs.psimps Let_def)
next
  case (2 graph s)
  then show ?case by (simp add: dfs_neighbours.psimps)
next
  case (3 graph neighbour rest s)
  then show ?case by (auto simp: dfs_neighbours.psimps)
qed

termination dfs
proof (relation "inv_image (less_than <*lex*> less_than) dfs_rank")
  show "wf (inv_image (less_than <*lex*> less_than) dfs_rank)"
    by (intro wf_inv_image wf_lex_prod wf_less_than)
next
  fix graph :: graph and node :: int and s x :: dfs_state
  assume a: "node \<notin> set (stack s)" "node \<notin> visited s"
    and x: "x = s\<lparr>visited := insert node (visited s), stack := stack s @ [node]\<rparr>"
  show "(Inr (graph, graph_get graph node, x), Inl (graph, node, s))
         \<in> inv_image (less_than <*lex*> less_than) dfs_rank"
  proof (cases "graph_get graph node = []")
    case True
    have "card (nodes graph - insert node (visited s)) \<le> card (nodes graph - visited s)"
      by (rule card_mono) (auto simp: finite_nodes)
    then show ?thesis using True x by (auto simp: dfs_rank_def)
  next
    case False
    then have "node \<in> nodes graph" by (rule graph_get_nodes)
    then have "card (nodes graph - insert node (visited s)) < card (nodes graph - visited s)"
      using a(2) by (intro psubset_card_mono) (auto simp: finite_nodes)
    then show ?thesis using x by (auto simp: dfs_rank_def)
  qed
next
  fix graph :: graph and neighbour :: int and rest :: "int list" and s :: dfs_state
  show "(Inl (graph, neighbour, s), Inr (graph, neighbour # rest, s))
         \<in> inv_image (less_than <*lex*> less_than) dfs_rank"
    by (simp add: dfs_rank_def)
next
  fix graph :: graph and neighbour :: int and rest :: "int list" and s :: dfs_state
  assume "dfs_dfs_neighbours_dom (Inl (graph, neighbour, s))"
  then have "visited s \<subseteq> visited (dfs graph neighbour s)"
    by (rule dfs_visited_mono_dom)
  then have "card (nodes graph - visited (dfs graph neighbour s)) \<le> card (nodes graph - visited s)"
    by (intro card_mono) (auto simp: finite_nodes)
  then show "(Inr (graph, rest, dfs graph neighbour s), Inr (graph, neighbour # rest, s))
         \<in> inv_image (less_than <*lex*> less_than) dfs_rank"
    by (auto simp: dfs_rank_def)
qed

declare dfs.simps [simp del]

text \<open>The loop \<open>for n in list(graph.keys())\<close>.\<close>

fun visit_all :: "graph \<Rightarrow> int list \<Rightarrow> dfs_state \<Rightarrow> dfs_state" where
  "visit_all graph [] s = s"
| "visit_all graph (n # ns) s =
     visit_all graph ns (if n \<notin> visited s then dfs graph n s else s)"

definition detect_circular_dependencies ::
  "(string \<Rightarrow> int option) \<Rightarrow> task list \<Rightarrow> error + int list list" where
  "detect_circular_dependencies str_int tasks =
     (case build_graph str_int 0 tasks [] of
        Inl e \<Rightarrow> Inl e
      | Inr graph \<Rightarrow>
          Inr (cycles (visit_all graph (map fst graph)
                 \<lparr>visited = {}, stack = [], cycles = [], seen_cycles = {}\<rparr>)))"


section \<open>views.py\<close>

text \<open>
  The views work on \<open>serializer.validated_data\<close>, the list of dictionaries the
  serializer returns for a request body it accepts. \<open>assign_ids\<close> changes the
  dictionaries in place; the model hands the changed list on.
\<close>

definition DEFAULT_WEIGHTS :: "string \<rightharpoonup> real" where
  "DEFAULT_WEIGHTS =
     [''urgency'' \<mapsto> 4 / 10, ''importance'' \<mapsto> 4 / 10,
      ''effort'' \<mapsto> 15 / 100, ''dependency'' \<mapsto> 5 / 100]"

fun assign_ids_from :: "nat \<Rightarrow> task list \<Rightarrow> task list" where
  "assign_ids_from i [] = []"
| "assign_ids_from i (t # ts) =
     (if t ''id'' = None then t(''id'' \<mapsto> PInt (int i + 1)) else t)
       # assign_ids_from (Suc i) ts"

definition assign_ids :: "task list \<Rightarrow> task list" where
  "assign_ids tasks = assign_ids_from 0 tasks"

text \<open>The loop of \<open>score_tasks\<close>, with the list \<open>scored\<close> as it grows.\<close>

fun score_loop ::
  "date \<Rightarrow> (string \<Rightarrow> date option) \<Rightarrow> (string \<Rightarrow> real option) \<Rightarrow>
   task list \<Rightarrow> (string \<rightharpoonup> real) \<Rightarrow> task list \<Rightarrow> task list \<Rightarrow> error + task list" where
  "score_loop today fromiso str_float tasks weights [] scored = Inr scored"
| "score_loop today fromiso str_float tasks weights (t # ts) scored =
     (case calculate_priority today fromiso str_float t tasks weights of
        Inl e \<Rightarrow> Inl e
      | Inr score \<Rightarrow>
          score_loop today fromiso str_float tasks weights ts
            (scored @ [t(''score'' \<mapsto> PFloat score)]))"

definition score_tasks ::
  "date \<Rightarrow> (string \<Rightarrow> date option) \<Rightarrow> (string \<Rightarrow> real option) \<Rightarrow>
   task list \<Rightarrow> (string \<rightharpoonup> real) \<Rightarrow> error + task list" where
  "score_tasks today fromiso str_float tasks weights =
     score_loop today fromiso str_float tasks weights tasks []"

fun parse_date_safe :: "(string \<Rightarrow> date option) \<Rightarrow> pyval \<Rightarrow> date option" where
  "parse_date_safe fromiso (PDate d) = Some d"
| "parse_date_safe fromiso (PStr d) =
     (case fromiso d of
        Some r \<Rightarrow> Some r
      | None \<Rightarrow> fromiso (before_T d))"
| "parse_date_safe fromiso d = None"

text \<open>
  The three responses: status 400 with \<open>{"error": ..., "cycles": ...}\<close>, status 200
  with the list of scored tasks, status 200 with \<open>{"top_3": ...}\<close>.
\<close>

datatype response =
    Bad_request string "int list list"
  | Ok_tasks "task list"
  | Ok_top_3 "task list"

definition check_and_respond_cycles ::
  "(string \<Rightarrow> int option) \<Rightarrow> task list \<Rightarrow> error + response option" where
  "check_and_respond_cycles str_int tasks =
     (case detect_circular_dependencies str_int tasks of
        Inl e \<Rightarrow> Inl e
      | Inr found \<Rightarrow>
          if found \<noteq> [] then Inr (Some (Bad_request ''Circular dependencies detected'' found))
          else Inr None)"

text \<open>
  \<open>sorted(xs, key=lambda x: x['score'], reverse=True)\<close>: a stable sort into descending
  order of the key, that is a stable sort into ascending order of the negated key. Every
  item that reaches it has a float under \<open>'score'\<close>, stored by \<open>score_tasks\<close>.
\<close>

definition score_of :: "task \<Rightarrow> real" where
  "score_of x = (case x ''score'' of Some (PFloat r) \<Rightarrow> r | _ \<Rightarrow> 0)"

definition sorted_by_score_reverse :: "task list \<Rightarrow> task list" where
  "sorted_by_score_reverse xs = sort_key (\<lambda>x. - score_of x) xs"

text \<open>\<open>AnalyzeTasks.post\<close>, from the validated data on.\<close>

definition analyze_tasks ::
  "date \<Rightarrow> (string \<Rightarrow> date option) \<Rightarrow> (string \<Rightarrow> int option) \<Rightarrow> (string \<Rightarrow> real option) \<Rightarrow>
   task list \<Rightarrow> error + response" where
  "analyze_tasks today fromiso str_int str_float validated_data =
     (let tasks = assign_ids validated_data
      in case check_and_respond_cycles str_int tasks of
           Inl e \<Rightarrow> Inl e
         | Inr (Some cycle_resp) \<Rightarrow> Inr cycle_resp
         | Inr None \<Rightarrow>
            (case score_tasks today fromiso str_float tasks DEFAULT_WEIGHTS of
               Inl e \<Rightarrow> Inl e
             | Inr scored \<Rightarrow> Inr (Ok_tasks (sorted_by_score_reverse scored))))"

subsection \<open>The explanation of a suggestion\<close>

text \<open>\<open>str(n)\<close> for an integer, as the f-strings format it.\<close>

function str_nat :: "nat \<Rightarrow> string" where
  "str_nat n =
     (if n < 10 then [''0123456789'' ! n]
      else str_nat (n div 10) @ [''0123456789'' ! (n mod 10)])"
  by pat_completeness auto
termination
  by (relation "measure (\<lambda>n. n)") auto

declare str_nat.simps [simp del]

definition str_int_py :: "int \<Rightarrow> string" where
  "str_int_py i = (if i < 0 then CHR ''-'' # str_nat (nat (- i)) else str_nat (nat i))"

text \<open>
  \<open>sep.join(parts)\<close>, and the separator: a space, the middle dot U+00B7, a space.
\<close>

fun join :: "string \<Rightarrow> string list \<Rightarrow> string" where
  "join sep [] = []"
| "join sep [p] = p"
| "join sep (p # q # ps) = p @ sep @ join sep (q # ps)"

definition separator :: string where
  "separator = [CHR '' '', CHR 0xB7, CHR '' '']"

text \<open>
  \<open>v >= 8\<close> for the value under \<open>'importance'\<close>: numbers compare, anything else raises
  \<open>TypeError\<close>.
\<close>

fun py_ge_int :: "pyval \<Rightarrow> int \<Rightarrow> error + bool" where
  "py_ge_int (PBool b) k = Inr ((if b then 1 else 0) \<ge> k)"
| "py_ge_int (PInt i) k = Inr (i \<ge> k)"
| "py_ge_int (PFloat r) k = Inr (r \<ge> of_int k)"
| "py_ge_int v k = Inl TypeError"

text \<open>The four groups of \<open>explanation_parts\<close>, in the order the loop body appends them.\<close>

definition due_parts :: "date \<Rightarrow> (string \<Rightarrow> date option) \<Rightarrow> task \<Rightarrow> string list" where
  "due_parts today fromiso t =
     (case parse_date_safe fromiso (dict_get t ''due_date'') of
        None \<Rightarrow> []
      | Some due_dt \<Rightarrow>
         (let days_left = toordinal due_dt - toordinal today
          in if days_left < 0 then [''Overdue'']
             else if days_left = 0 then [''Due today'']
             else if days_left \<le> 3 then [''Due in '' @ str_int_py days_left @ '' day(s)'']
             else []))"

definition importance_parts :: "task \<Rightarrow> error + string list" where
  "importance_parts t =
     (case py_ge_int (dict_get_default t ''importance'' (PInt 0)) 8 of
        Inl e \<Rightarrow> Inl e
      | Inr high \<Rightarrow> Inr (if high then [''High importance''] else []))"

definition effort_parts :: "(string \<Rightarrow> real option) \<Rightarrow> task \<Rightarrow> string list" where
  "effort_parts str_float t =
     (let est = (case py_float str_float (dict_get_default t ''estimated_hours'' (PInt 999)) of
                   Inl e \<Rightarrow> 999
                 | Inr r \<Rightarrow> r)
      in if est \<le> 2 then [''Quick win (low effort)''] else [])"

definition dependency_parts :: "task \<Rightarrow> error + string list" where
  "dependency_parts t =
     (let deps = py_or (dict_get t ''dependencies'') (PList [])
      in if truthy deps then
           (case py_len deps of
              Inl e \<Rightarrow> Inl e
            | Inr n \<Rightarrow> Inr [''Blocks '' @ str_nat n @ '' task(s)''])
         else Inr [])"

definition explanation ::
  "date \<Rightarrow> (string \<Rightarrow> date option) \<Rightarrow> (string \<Rightarrow> real option) \<Rightarrow> task \<Rightarrow> error + string" where
  "explanation today fromiso str_float t =
     (case importance_parts t of
        Inl e \<Rightarrow> Inl e
      | Inr imp \<Rightarrow>
     (case dependency_parts t of
        Inl e \<Rightarrow> Inl e
      | Inr blocks \<Rightarrow>
         (let explanation_parts = due_parts today fromiso t @ imp @ effort_parts str_float t @ blocks;
              joined = join separator explanation_parts
          in Inr (if joined \<noteq> [] then joined else ''Balanced factors''))))"

fun explain_loop ::
  "date \<Rightarrow> (string \<Rightarrow> date option) \<Rightarrow> (string \<Rightarrow> real option) \<Rightarrow>
   task list \<Rightarrow> task list \<Rightarrow> error + task list" where
  "explain_loop today fromiso str_float [] scored_with_expl = Inr scored_with_expl"
| "explain_loop today fromiso str_float (t # ts) scored_with_expl =
     (case explanation today fromiso str_float t of
        Inl e \<Rightarrow> Inl e
      | Inr expl \<Rightarrow>
          explain_loop today fromiso str_float ts
            (scored_with_expl @ [t(''explanation'' \<mapsto> PStr expl)]))"

text \<open>\<open>SuggestTasks.post\<close>, from the validated data on.\<close>

definition suggest_tasks ::
  "date \<Rightarrow> (string \<Rightarrow> date option) \<Rightarrow> (string \<Rightarrow> int option) \<Rightarrow> (string \<Rightarrow> real option) \<Rightarrow>
   task list \<Rightarrow> error + response" where
  "suggest_tasks today fromiso str_int str_float validated_data =
     (let tasks = assign_ids validated_data
      in case check_and_respond_cycles str_int tasks of
           Inl e \<Rightarrow> Inl e
         | Inr (Some cycle_resp) \<Rightarrow> Inr cycle_resp
         | Inr None \<Rightarrow>
            (case score_tasks today fromiso str_float tasks DEFAULT_WEIGHTS of
               Inl e \<Rightarrow> Inl e
             | Inr scored \<Rightarrow>
                (case explain_loop today fromiso str_float scored [] of
                   Inl e \<Rightarrow> Inl e
                 | Inr scored_with_expl \<Rightarrow>
                     Inr (Ok_top_3 (take 3 (sorted_by_score_reverse scored_with_expl))))))"


section \<open>Notions used in the statements\<close>

text \<open>The keys of the adjacency map, and the states whose recorded cycles stay within a set.\<close>

definition keys :: "graph \<Rightarrow> int set" where
  "keys g = fst ` set g"



text \<open>The states whose recorded cycles have two elements or more, the first equal to the last.\<close>

definition closed_paths :: "dfs_state \<Rightarrow> bool" where
  "closed_paths s = (\<forall>c \<in> set (cycles s). 2 \<le> length c \<and> hd c = last c)"


text \<open>
  What every phrase of an explanation has and the default text has not: at least two
  characters, the first two not \<open>Ba\<close>.
\<close>

definition phrase :: "string \<Rightarrow> bool" where
  "phrase p = (2 \<le> length p \<and> take 2 p \<noteq> ''Ba'')"


text \<open>
  The dependency graph as the detector holds it: an edge from each key to each of its
  dependencies. It is cyclic when some node reaches itself in one step or more.
\<close>

definition edges :: "graph \<Rightarrow> (int \<times> int) set" where
  "edges g = {(u, v). v \<in> set (graph_get g u)}"

definition has_cycle :: "graph \<Rightarrow> bool" where
  "has_cycle g = (\<exists>v. (v, v) \<in> (edges g)\<^sup>+)"

text \<open>
  For the traversal: the start state; the nodes that are visited and off the stack; a
  set of nodes closed under edges with no node on a cycle; what holds of every state
  the traversal reaches; and a stack that is a path of the graph, each node of \<open>ns\<close>
  one edge from its top.
\<close>

definition initial :: dfs_state where
  "initial = \<lparr>visited = {}, stack = [], cycles = [], seen_cycles = {}\<rparr>"

definition finished :: "dfs_state \<Rightarrow> int set" where
  "finished s = visited s - set (stack s)"

definition settled :: "graph \<Rightarrow> int set \<Rightarrow> bool" where
  "settled g F = ((\<forall>u \<in> F. \<forall>v. (u, v) \<in> edges g \<longrightarrow> v \<in> F) \<and> (\<forall>u \<in> F. (u, u) \<notin> (edges g)\<^sup>+))"

definition good :: "graph \<Rightarrow> dfs_state \<Rightarrow> bool" where
  "good g s = (set (stack s) \<subseteq> visited s \<and> seen_cycles s = set (cycles s)
               \<and> (cycles s = [] \<longrightarrow> settled g (finished s)))"

definition on_path :: "graph \<Rightarrow> dfs_state \<Rightarrow> int list \<Rightarrow> bool" where
  "on_path g s ns = (successively (\<lambda>u v. (u, v) \<in> edges g) (stack s)
                     \<and> (stack s \<noteq> [] \<longrightarrow> (\<forall>n \<in> set ns. (last (stack s), n) \<in> edges g)))"

text \<open>
  What \<open>TaskInputSerializer\<close> of serializers.py leaves in \<open>validated_data\<close>: an
  optional integer id, a title, a date, a float of at least 0, an integer from 1 to 10 and
  an optional list of integers.
\<close>

definition validated :: "task \<Rightarrow> bool" where
  "validated t =
     ((t ''id'' = None \<or> (\<exists>i. t ''id'' = Some (PInt i)))
      \<and> (\<exists>s. t ''title'' = Some (PStr s))
      \<and> (\<exists>d. t ''due_date'' = Some (PDate d))
      \<and> (\<exists>h. t ''estimated_hours'' = Some (PFloat h) \<and> 0 \<le> h)
      \<and> (\<exists>i. t ''importance'' = Some (PInt i) \<and> 1 \<le> i \<and> i \<le> 10)
      \<and> (t ''dependencies'' = None
          \<or> (\<exists>ds. t ''dependencies'' = Some (PList (map PInt ds)))))"

text \<open>
  The dependency graph of a batch whose tasks all have ids: an edge from the id of each
  task to each id in its dependency list. \<open>id_of\<close> reads the id of such a task, and a
  task is \<open>plain\<close> when its id is an integer other than 0 and its dependencies are
  missing or a list of integers.
\<close>

definition batch_edges :: "task list \<Rightarrow> (int \<times> int) set" where
  "batch_edges tasks =
     {(i, d). \<exists>t \<in> set tasks. t ''id'' = Some (PInt i)
               \<and> (\<exists>ds. t ''dependencies'' = Some (PList (map PInt ds)) \<and> d \<in> set ds)}"

definition id_of :: "task \<Rightarrow> int" where
  "id_of t = (case t ''id'' of Some (PInt i) \<Rightarrow> i | _ \<Rightarrow> 0)"

definition plain :: "task \<Rightarrow> bool" where
  "plain t = ((\<exists>i. t ''id'' = Some (PInt i) \<and> i \<noteq> 0)
              \<and> (t ''dependencies'' = None
                  \<or> (\<exists>ds. t ''dependencies'' = Some (PList (map PInt ds)))))"


section \<open>Properties of the scorer\<close>

text \<open>
  C6. The date normaliser returns a calendar date unchanged. For a string it takes the
  full ISO parse when that succeeds; otherwise the parse of the part before the first
  \<open>T\<close> when that succeeds; otherwise it fails with the invalid-date error carrying the
  original string. A value of any other type fails with the invalid-date error.
\<close>

theorem ensure_date_contract:
  "ensure_date fromiso (PDate d) = Inr d
   \<and> (\<forall>s r. fromiso s = Some r \<longrightarrow> ensure_date fromiso (PStr s) = Inr r)
   \<and> (\<forall>s r. fromiso s = None \<and> fromiso (takeWhile (\<lambda>c. c \<noteq> CHR ''T'') s) = Some r
         \<longrightarrow> ensure_date fromiso (PStr s) = Inr r)
   \<and> (\<forall>s. fromiso s = None \<and> fromiso (takeWhile (\<lambda>c. c \<noteq> CHR ''T'') s) = None
         \<longrightarrow> ensure_date fromiso (PStr s) = Inl (ValueError (Invalid_date_string s)))
   \<and> (\<forall>v. (\<forall>d. v \<noteq> PDate d) \<and> (\<forall>s. v \<noteq> PStr s)
         \<longrightarrow> (\<exists>ty. ensure_date fromiso v = Inl (ValueError (Invalid_date_type ty))))"
proof -
  have other: "\<exists>ty. ensure_date fromiso v = Inl (ValueError (Invalid_date_type ty))"
    if "\<forall>d. v \<noteq> PDate d" "\<forall>s. v \<noteq> PStr s" for v
    using that by (cases v) simp_all
  show ?thesis
    by (simp add: before_T_def other)
qed

theorem ensure_date_contract_witness:
  "ensure_date (\<lambda>s. if s = ''2025-11-30'' then Some (Date 739585) else None) (PDate (Date 7)) = Inr (Date 7)
   \<and> ensure_date (\<lambda>s. if s = ''2025-11-30'' then Some (Date 739585) else None) (PStr ''2025-11-30'')
       = Inr (Date 739585)
   \<and> ensure_date (\<lambda>s. if s = ''2025-11-30'' then Some (Date 739585) else None) (PStr ''2025-11-30Tnoon'')
       = Inr (Date 739585)
   \<and> ensure_date (\<lambda>s. if s = ''2025-11-30'' then Some (Date 739585) else None) (PStr ''soon'')
       = Inl (ValueError (Invalid_date_string ''soon''))
   \<and> ensure_date (\<lambda>s. if s = ''2025-11-30'' then Some (Date 739585) else None) (PInt 5)
       = Inl (ValueError (Invalid_date_type TInt))"
  using ensure_date_contract
    [of "\<lambda>s. if s = ''2025-11-30'' then Some (Date 739585) else None" "Date 7"]
  by simp

text \<open>
  C5. Measured against the current date, the urgency of a due date is 10 when it is
  overdue (however long), 9 when it is due today, 7 when it is due in 1 to 3 days, 5 in
  4 to 7 days and 3 in 8 days or more.
\<close>

theorem calculate_urgency_buckets:
  "(toordinal due - toordinal today < 0 \<longrightarrow> calculate_urgency today due = 10)
   \<and> (toordinal due - toordinal today = 0 \<longrightarrow> calculate_urgency today due = 9)
   \<and> (1 \<le> toordinal due - toordinal today \<and> toordinal due - toordinal today \<le> 3
        \<longrightarrow> calculate_urgency today due = 7)
   \<and> (4 \<le> toordinal due - toordinal today \<and> toordinal due - toordinal today \<le> 7
        \<longrightarrow> calculate_urgency today due = 5)
   \<and> (8 \<le> toordinal due - toordinal today \<longrightarrow> calculate_urgency today due = 3)"
  by (simp add: calculate_urgency_def Let_def)

theorem calculate_urgency_buckets_witness:
  "calculate_urgency (Date 739585) (Date 739000) = 10
   \<and> calculate_urgency (Date 739585) (Date 739585) = 9
   \<and> calculate_urgency (Date 739585) (Date 739588) = 7
   \<and> calculate_urgency (Date 739585) (Date 739589) = 5
   \<and> calculate_urgency (Date 739585) (Date 739593) = 3"
  using calculate_urgency_buckets [of "Date 739000" "Date 739585"]
    calculate_urgency_buckets [of "Date 739585" "Date 739585"]
    calculate_urgency_buckets [of "Date 739588" "Date 739585"]
    calculate_urgency_buckets [of "Date 739589" "Date 739585"]
    calculate_urgency_buckets [of "Date 739593" "Date 739585"]
  by simp





text \<open>
  C2. A task whose estimated hours are the string \<open>'abc'\<close>, which \<open>float\<close> rejects, has
  no score: \<open>calculate_priority\<close> converts the field itself, outside the guard of
  \<open>calculate_effort_score\<close>, and the \<open>ValueError\<close> of the conversion leaves the function.
  The same holds of an importance \<open>'abc'\<close>. Handed the string itself,
  \<open>calculate_effort_score\<close> does take 0 hours and returns 10.
\<close>

theorem calculate_priority_non_numeric_hours_raises:
  "calculate_priority today fromiso (str_float(''abc'' := None))
     [''due_date'' \<mapsto> PDate due, ''estimated_hours'' \<mapsto> PStr ''abc'', ''importance'' \<mapsto> PInt 5]
     all_tasks weights = Inl (ValueError Builtin_message)
   \<and> calculate_priority today fromiso (str_float(''abc'' := None))
     [''due_date'' \<mapsto> PDate due, ''estimated_hours'' \<mapsto> PInt 3, ''importance'' \<mapsto> PStr ''abc'']
     all_tasks weights = Inl (ValueError Builtin_message)
   \<and> calculate_effort_score (str_float(''abc'' := None)) (PStr ''abc'') = Inr 10"
  by (simp add: calculate_priority_def calculate_effort_score_def dict_get_default_def)

section \<open>Properties of the cycle detector\<close>

text \<open>
  C1. For the batch of the single task with id 1 and dependencies \<open>[1]\<close> the detector
  returns the two-element path \<open>[1, 1]\<close>: the slice of the stack from the node on,
  closed by the node again. The one-element path \<open>[1]\<close> of the docstring is not what it
  returns.
\<close>

theorem detect_self_dependency:
  "detect_circular_dependencies str_int
     [[''id'' \<mapsto> PInt 1, ''dependencies'' \<mapsto> PList [PInt 1]]] = Inr [[1, 1]]"
  by (simp add: detect_circular_dependencies_def task_id_def dict_get_def py_or_def
      graph_get_def canonical_def dfs.simps Let_def)


subsection \<open>Returned cycles stay within the batch\<close>

lemma py_min_key_mem: "py_min_key key best xs \<in> set (best # xs)"
  by (induction xs arbitrary: best) auto


lemma graph_get_keys: "graph_get g n \<noteq> [] \<Longrightarrow> n \<in> keys g"
  by (auto simp: graph_get_def keys_def split: option.splits dest: map_of_SomeD
      intro: rev_image_eqI)



lemma keys_update: "keys (AList.update k v g) = insert k (keys g)"
  by (induction g) (auto simp: keys_def)





subsection \<open>Returned cycles are closed paths\<close>

text \<open>
  Whatever the batch, a returned cycle has at least two elements and ends with the node
  it starts with: the branch of \<open>canonical\<close> for a one-element path is never taken.
\<close>

lemma canonical_closed:
  assumes "2 \<le> length c"
  shows "length (canonical c) = length c \<and> hd (canonical c) = last (canonical c)"
proof -
  define m where "m = py_min_key (\<lambda>i. c ! i) 0 [1..<length c - 1]"
  have "m \<in> set (0 # [1..<length c - 1])"
    unfolding m_def by (rule py_min_key_mem)
  then have m: "m < length c - 1" using assms by auto
  have can: "canonical c = drop m (butlast c) @ take m c @ [c ! m]"
    using assms by (simp add: canonical_def m_def Let_def)
  have ne: "drop m (butlast c) \<noteq> []" using m by simp
  have "hd (drop m (butlast c)) = butlast c ! m"
    using m by (simp add: hd_drop_conv_nth)
  also have "\<dots> = c ! m"
    using m by (simp add: nth_butlast)
  finally have "hd (canonical c) = c ! m"
    using ne by (simp add: can)
  moreover have "last (canonical c) = c ! m"
    by (simp add: can)
  moreover have "length (canonical c) = length c"
    using m by (simp add: can)
  ultimately show ?thesis by simp
qed

lemma dfs_closed_paths:
  "closed_paths s \<Longrightarrow> closed_paths (dfs g n s)"
  "closed_paths s \<Longrightarrow> closed_paths (dfs_neighbours g ns s)"
proof (induction g n s and g ns s rule: dfs_dfs_neighbours.induct)
  case (1 graph node s)
  show ?case
  proof (cases "node \<in> set (stack s)")
    case True
    then have "dropWhile (\<lambda>x. x \<noteq> node) (stack s) \<noteq> []"
      by (simp add: dropWhile_eq_Nil_conv)
    then have "2 \<le> length (dropWhile (\<lambda>x. x \<noteq> node) (stack s) @ [node])"
      by (cases "dropWhile (\<lambda>x. x \<noteq> node) (stack s)") simp_all
    then have "2 \<le> length (canonical (dropWhile (\<lambda>x. x \<noteq> node) (stack s) @ [node]))
        \<and> hd (canonical (dropWhile (\<lambda>x. x \<noteq> node) (stack s) @ [node]))
          = last (canonical (dropWhile (\<lambda>x. x \<noteq> node) (stack s) @ [node]))"
      using canonical_closed by metis
    then show ?thesis
      using True "1.prems" by (simp add: dfs.simps closed_paths_def Let_def)
  next
    case False
    note nstack = this
    show ?thesis
    proof (cases "node \<in> visited s")
      case True
      then show ?thesis using nstack "1.prems" by (simp add: dfs.simps)
    next
      case False
      define s1 where "s1 = s\<lparr>visited := insert node (visited s), stack := stack s @ [node]\<rparr>"
      have "closed_paths s1" using "1.prems" by (simp add: s1_def closed_paths_def)
      then have "closed_paths (dfs_neighbours graph (graph_get graph node) s1)"
        using "1.IH"[OF nstack False s1_def] by simp
      then show ?thesis
        using nstack False by (simp add: dfs.simps Let_def closed_paths_def flip: s1_def)
    qed
  qed
next
  case (2 graph s)
  then show ?case by simp
next
  case (3 graph neighbour rest s)
  then show ?case by simp
qed

lemma visit_all_closed_paths:
  "closed_paths s \<Longrightarrow> closed_paths (visit_all g ns s)"
  by (induction ns arbitrary: s) (simp_all add: dfs_closed_paths(1))

lemma detect_cycles_closed:
  assumes "detect_circular_dependencies str_int tasks = Inr found" and "c \<in> set found"
  shows "2 \<le> length c \<and> hd c = last c"
proof -
  from assms(1) obtain g where
    found: "found = cycles (visit_all g (map fst g)
              \<lparr>visited = {}, stack = [], cycles = [], seen_cycles = {}\<rparr>)"
    by (auto simp: detect_circular_dependencies_def split: sum.splits)
  have "closed_paths (visit_all g (map fst g)
          \<lparr>visited = {}, stack = [], cycles = [], seen_cycles = {}\<rparr>)"
    by (rule visit_all_closed_paths) (simp add: closed_paths_def)
  then show ?thesis
    using assms(2) found by (simp add: closed_paths_def)
qed


subsection \<open>The detector reports a cycle exactly when the graph has one\<close>

text \<open>
  Completeness rests on the nodes that are finished: while no cycle has been recorded
  they are closed under edges and none of them is on a cycle, and at the end every key
  is finished. Soundness rests on the stack being a path: a node met again on the stack
  closes a cycle.
\<close>

lemma settled_reach:
  assumes "settled g F" and "(u, v) \<in> (edges g)\<^sup>*" and "u \<in> F"
  shows "v \<in> F"
  using assms(2,3,1) by (induction rule: rtrancl_induct) (auto simp: settled_def)

lemma settled_insert:
  assumes F: "settled g F" and n: "n \<notin> F" and nb: "set (graph_get g n) \<subseteq> F"
  shows "settled g (insert n F)"
proof -
  have "(n, n) \<notin> (edges g)\<^sup>+"
  proof
    assume "(n, n) \<in> (edges g)\<^sup>+"
    then obtain v where "(n, v) \<in> edges g" "(v, n) \<in> (edges g)\<^sup>*"
      by (meson tranclD)
    then have "v \<in> F" using nb by (auto simp: edges_def)
    then have "n \<in> F" using settled_reach[OF F \<open>(v, n) \<in> (edges g)\<^sup>*\<close>] by simp
    then show False using n by simp
  qed
  moreover have "\<forall>v. (n, v) \<in> edges g \<longrightarrow> v \<in> insert n F"
    using nb by (auto simp: edges_def)
  ultimately show ?thesis
    using F by (auto simp: settled_def)
qed

lemma dfs_complete:
  "good g s \<Longrightarrow>
     stack (dfs g n s) = stack s \<and> visited s \<subseteq> visited (dfs g n s) \<and> good g (dfs g n s)
     \<and> (cycles (dfs g n s) = [] \<longrightarrow> cycles s = [] \<and> n \<in> finished (dfs g n s))"
  "good g s \<Longrightarrow>
     stack (dfs_neighbours g ns s) = stack s \<and> visited s \<subseteq> visited (dfs_neighbours g ns s)
     \<and> good g (dfs_neighbours g ns s)
     \<and> (cycles (dfs_neighbours g ns s) = [] \<longrightarrow>
           cycles s = [] \<and> set ns \<subseteq> finished (dfs_neighbours g ns s))"
proof (induction g n s and g ns s rule: dfs_dfs_neighbours.induct)
  case (1 graph node s)
  show ?case
  proof (cases "node \<in> set (stack s)")
    case True
    then show ?thesis
      using "1.prems" by (auto simp: dfs.simps good_def Let_def)
  next
    case False
    note nstack = this
    show ?thesis
    proof (cases "node \<in> visited s")
      case True
      then show ?thesis using nstack "1.prems" by (simp add: dfs.simps finished_def)
    next
      case False
      define s1 where "s1 = s\<lparr>visited := insert node (visited s), stack := stack s @ [node]\<rparr>"
      define s2 where "s2 = dfs_neighbours graph (graph_get graph node) s1"
      have res: "dfs graph node s = s2\<lparr>stack := butlast (stack s2)\<rparr>"
        using nstack False by (simp add: dfs.simps s1_def s2_def Let_def)
      have f1: "finished s1 = finished s"
        using False by (auto simp: finished_def s1_def)
      have g1: "good graph s1"
        using "1.prems" by (auto simp: good_def f1) (auto simp: s1_def)
      have ih: "stack s2 = stack s1 \<and> visited s1 \<subseteq> visited s2 \<and> good graph s2
                \<and> (cycles s2 = [] \<longrightarrow> cycles s1 = [] \<and> set (graph_get graph node) \<subseteq> finished s2)"
        unfolding s2_def using "1.IH"[OF nstack False s1_def g1] .
      have st: "stack (dfs graph node s) = stack s"
        using ih by (simp add: res s1_def)
      have vis: "visited (dfs graph node s) = visited s2"
        by (simp add: res)
      have nv: "node \<in> visited s2" using ih by (auto simp: s1_def)
      have fin: "finished (dfs graph node s) = insert node (finished s2)"
        using ih nv nstack by (auto simp: finished_def res s1_def)
      have n2: "node \<notin> finished s2"
        using ih by (simp add: finished_def s1_def)
      have cyc: "cycles (dfs graph node s) = cycles s2" "seen_cycles (dfs graph node s) = seen_cycles s2"
        by (simp_all add: res)
      have sett: "settled graph (finished (dfs graph node s))" if "cycles s2 = []"
        unfolding fin using ih that n2 by (intro settled_insert) (auto simp: good_def)
      have "good graph (dfs graph node s)"
        using ih "1.prems" sett by (auto simp: good_def st vis cyc s1_def)
      moreover have "visited s \<subseteq> visited (dfs graph node s)"
        using ih by (auto simp: vis s1_def)
      moreover have "cycles (dfs graph node s) = [] \<longrightarrow> cycles s = [] \<and> node \<in> finished (dfs graph node s)"
        using ih by (auto simp: cyc fin s1_def)
      ultimately show ?thesis using st by blast
    qed
  qed
next
  case (2 graph s)
  then show ?case by simp
next
  case (3 graph neighbour rest s)
  define s1 where "s1 = dfs graph neighbour s"
  define s2 where "s2 = dfs_neighbours graph rest s1"
  have a: "stack s1 = stack s \<and> visited s \<subseteq> visited s1 \<and> good graph s1
           \<and> (cycles s1 = [] \<longrightarrow> cycles s = [] \<and> neighbour \<in> finished s1)"
    unfolding s1_def using "3.IH"(1)[OF "3.prems"] .
  then have g1: "good graph s1" by simp
  have b: "stack s2 = stack s1 \<and> visited s1 \<subseteq> visited s2 \<and> good graph s2
           \<and> (cycles s2 = [] \<longrightarrow> cycles s1 = [] \<and> set rest \<subseteq> finished s2)"
    unfolding s2_def using "3.IH"(2) g1 by (simp add: s1_def)
  have mono: "finished s1 \<subseteq> finished s2"
    using b by (auto simp: finished_def)
  have "dfs_neighbours graph (neighbour # rest) s = s2"
    by (simp add: s1_def s2_def)
  then show ?case
    using a b mono by auto
qed

lemma path_reaches_last:
  "successively (\<lambda>u v. (u, v) \<in> E) (x # ys) \<Longrightarrow> (x, last (x # ys)) \<in> E\<^sup>*"
proof (induction ys arbitrary: x)
  case Nil
  then show ?case by simp
next
  case (Cons y ys)
  then have "(x, y) \<in> E" and "(y, last (y # ys)) \<in> E\<^sup>*"
    by simp_all
  then show ?case by (simp add: converse_rtrancl_into_rtrancl)
qed

lemma back_edge_cycle:
  assumes path: "successively (\<lambda>u v. (u, v) \<in> E) st"
    and n: "n \<in> set st" and e: "(last st, n) \<in> E"
  shows "(n, n) \<in> E\<^sup>+"
proof -
  obtain xs ys where st: "st = xs @ n # ys"
    using n by (meson split_list)
  have "successively (\<lambda>u v. (u, v) \<in> E) (n # ys)"
    using path unfolding st by (simp add: successively_append_iff)
  then have "(n, last (n # ys)) \<in> E\<^sup>*"
    by (rule path_reaches_last)
  moreover have "last st = last (n # ys)"
    by (simp add: st)
  ultimately show ?thesis
    using e by (simp add: rtrancl_into_trancl1)
qed

lemma dfs_sound:
  "on_path g s [n] \<Longrightarrow> \<not> has_cycle g \<Longrightarrow> cycles s = [] \<Longrightarrow>
     cycles (dfs g n s) = [] \<and> stack (dfs g n s) = stack s"
  "on_path g s ns \<Longrightarrow> \<not> has_cycle g \<Longrightarrow> cycles s = [] \<Longrightarrow>
     cycles (dfs_neighbours g ns s) = [] \<and> stack (dfs_neighbours g ns s) = stack s"
proof (induction g n s and g ns s rule: dfs_dfs_neighbours.induct)
  case (1 graph node s)
  show ?case
  proof (cases "node \<in> set (stack s)")
    case True
    then have "stack s \<noteq> []" by auto
    then have "(node, node) \<in> (edges graph)\<^sup>+"
      using "1.prems"(1) True by (intro back_edge_cycle[of _ "stack s"]) (auto simp: on_path_def)
    then show ?thesis
      using "1.prems"(2) by (auto simp: has_cycle_def)
  next
    case False
    note nstack = this
    show ?thesis
    proof (cases "node \<in> visited s")
      case True
      then show ?thesis using nstack "1.prems" by (simp add: dfs.simps)
    next
      case False
      define s1 where "s1 = s\<lparr>visited := insert node (visited s), stack := stack s @ [node]\<rparr>"
      define s2 where "s2 = dfs_neighbours graph (graph_get graph node) s1"
      have res: "dfs graph node s = s2\<lparr>stack := butlast (stack s2)\<rparr>"
        using nstack False by (simp add: dfs.simps s1_def s2_def Let_def)
      have p1: "on_path graph s1 (graph_get graph node)"
        using "1.prems"(1)
        by (auto simp: on_path_def s1_def successively_append_iff edges_def)
      have c1: "cycles s1 = []" using "1.prems"(3) by (simp add: s1_def)
      have "cycles s2 = [] \<and> stack s2 = stack s1"
        unfolding s2_def using "1.IH"[OF nstack False s1_def p1 "1.prems"(2) c1] .
      then show ?thesis
        by (simp add: res s1_def)
    qed
  qed
next
  case (2 graph s)
  then show ?case by simp
next
  case (3 graph neighbour rest s)
  have p: "on_path graph s [neighbour]" "on_path graph s rest"
    using "3.prems"(1) by (auto simp: on_path_def)
  have a: "cycles (dfs graph neighbour s) = [] \<and> stack (dfs graph neighbour s) = stack s"
    using "3.IH"(1)[OF p(1) "3.prems"(2,3)] .
  then have p': "on_path graph (dfs graph neighbour s) rest"
    using p(2) by (simp add: on_path_def)
  have "cycles (dfs_neighbours graph rest (dfs graph neighbour s)) = []
        \<and> stack (dfs_neighbours graph rest (dfs graph neighbour s)) = stack (dfs graph neighbour s)"
    using "3.IH"(2)[OF p' "3.prems"(2)] a by simp
  then show ?case using a by simp
qed

lemma visit_all_sound:
  "stack s = [] \<Longrightarrow> \<not> has_cycle g \<Longrightarrow> cycles s = [] \<Longrightarrow>
     cycles (visit_all g ns s) = [] \<and> stack (visit_all g ns s) = []"
proof (induction ns arbitrary: s)
  case Nil
  then show ?case by simp
next
  case (Cons n ns)
  define s1 where "s1 = (if n \<notin> visited s then dfs g n s else s)"
  have "on_path g s [n]" using Cons.prems(1) by (simp add: on_path_def)
  then have "cycles (dfs g n s) = [] \<and> stack (dfs g n s) = stack s"
    using Cons.prems by (intro dfs_sound(1))
  then have "stack s1 = []" "cycles s1 = []"
    using Cons.prems by (simp_all add: s1_def)
  then have "cycles (visit_all g ns s1) = [] \<and> stack (visit_all g ns s1) = []"
    using Cons.prems(2) by (intro Cons.IH)
  then show ?case
    by (simp add: s1_def)
qed

lemma visit_all_complete:
  "stack s = [] \<Longrightarrow> good g s \<Longrightarrow>
     stack (visit_all g ns s) = [] \<and> good g (visit_all g ns s)
     \<and> visited s \<subseteq> visited (visit_all g ns s)
     \<and> (cycles (visit_all g ns s) = [] \<longrightarrow>
           cycles s = [] \<and> set ns \<subseteq> visited (visit_all g ns s))"
proof (induction ns arbitrary: s)
  case Nil
  then show ?case by simp
next
  case (Cons n ns)
  define s1 where "s1 = (if n \<notin> visited s then dfs g n s else s)"
  have d: "stack (dfs g n s) = stack s \<and> visited s \<subseteq> visited (dfs g n s) \<and> good g (dfs g n s)
     \<and> (cycles (dfs g n s) = [] \<longrightarrow> cycles s = [] \<and> n \<in> finished (dfs g n s))"
    using Cons.prems(2) by (rule dfs_complete(1))
  have s1: "stack s1 = [] \<and> good g s1 \<and> visited s \<subseteq> visited s1
            \<and> (cycles s1 = [] \<longrightarrow> cycles s = [] \<and> n \<in> visited s1)"
    using d Cons.prems by (auto simp: s1_def finished_def)
  have ih: "stack (visit_all g ns s1) = [] \<and> good g (visit_all g ns s1)
     \<and> visited s1 \<subseteq> visited (visit_all g ns s1)
     \<and> (cycles (visit_all g ns s1) = [] \<longrightarrow>
           cycles s1 = [] \<and> set ns \<subseteq> visited (visit_all g ns s1))"
    using s1 by (intro Cons.IH) simp_all
  have "visit_all g (n # ns) s = visit_all g ns s1"
    by (simp add: s1_def)
  then show ?case
    using s1 ih by auto
qed

lemma good_initial: "good g initial"
  by (simp add: good_def initial_def finished_def settled_def)

lemma edge_from_key:
  assumes "(u, v) \<in> edges g"
  shows "u \<in> keys g"
proof -
  have "graph_get g u \<noteq> []" using assms by (auto simp: edges_def)
  then show ?thesis by (rule graph_get_keys)
qed

theorem visit_all_detects:
  "cycles (visit_all g (map fst g) initial) \<noteq> [] \<longleftrightarrow> has_cycle g"
proof
  assume "cycles (visit_all g (map fst g) initial) \<noteq> []"
  then show "has_cycle g"
    using visit_all_sound[of initial g "map fst g"] by (auto simp: initial_def)
next
  assume c: "has_cycle g"
  show "cycles (visit_all g (map fst g) initial) \<noteq> []"
  proof
    let ?s = "visit_all g (map fst g) initial"
    assume e: "cycles ?s = []"
    have r: "stack ?s = [] \<and> good g ?s \<and> (cycles ?s = [] \<longrightarrow> cycles initial = [] \<and> set (map fst g) \<subseteq> visited ?s)"
      using visit_all_complete[of initial g "map fst g"] good_initial by (simp add: initial_def)
    then have fin: "keys g \<subseteq> finished ?s" and sett: "settled g (finished ?s)"
      using e by (auto simp: finished_def keys_def good_def)
    from c obtain v where v: "(v, v) \<in> (edges g)\<^sup>+" by (auto simp: has_cycle_def)
    then obtain w where "(v, w) \<in> edges g" by (meson tranclD)
    then have "v \<in> keys g" by (rule edge_from_key)
    then have "v \<in> finished ?s" using fin by blast
    then show False using sett v by (auto simp: settled_def)
  qed
qed


subsection \<open>The three-cycle\<close>







section \<open>Properties of the views\<close>

subsection \<open>The explanation\<close>

lemma join_starts: "\<exists>r. join sep (p # ps) = p @ r"
  by (cases ps) simp_all

lemma join_phrases:
  assumes "ps \<noteq> []" and "list_all phrase ps"
  shows "join sep ps \<noteq> [] \<and> join sep ps \<noteq> ''Balanced factors''"
proof -
  obtain p rest where ps: "ps = p # rest" using assms(1) by (cases ps) auto
  obtain r where r: "join sep ps = p @ r" unfolding ps using join_starts by blast
  have p: "2 \<le> length p" "take 2 p \<noteq> ''Ba''" using assms(2) by (simp_all add: ps phrase_def)
  have "take 2 (join sep ps) = take 2 p" using p(1) by (simp add: r)
  then have "take 2 (join sep ps) \<noteq> take 2 ''Balanced factors''" using p(2) by simp
  moreover have "join sep ps \<noteq> []" using p(1) r by auto
  ultimately show ?thesis by auto
qed

lemma phrase_due: "list_all phrase (due_parts today fromiso t)"
  by (simp add: due_parts_def phrase_def Let_def split: option.splits)

lemma phrase_effort: "list_all phrase (effort_parts str_float t)"
  by (simp add: effort_parts_def phrase_def Let_def)

lemma phrase_importance: "importance_parts t = Inr ps \<Longrightarrow> list_all phrase ps"
  by (auto simp: importance_parts_def phrase_def split: sum.splits if_splits)

lemma phrase_dependency: "dependency_parts t = Inr ps \<Longrightarrow> list_all phrase ps"
  by (auto simp: dependency_parts_def phrase_def Let_def split: sum.splits if_splits)

lemma explanation_joined:
  assumes "importance_parts t = Inr imp" and "dependency_parts t = Inr blocks"
  shows "explanation today fromiso str_float t =
           Inr (if due_parts today fromiso t @ imp @ effort_parts str_float t @ blocks = []
                then ''Balanced factors''
                else join separator (due_parts today fromiso t @ imp @ effort_parts str_float t @ blocks))"
    and "explanation today fromiso str_float t = Inr ''Balanced factors''
           \<longleftrightarrow> due_parts today fromiso t @ imp @ effort_parts str_float t @ blocks = []"
proof -
  let ?ps = "due_parts today fromiso t @ imp @ effort_parts str_float t @ blocks"
  have all: "list_all phrase ?ps"
    using phrase_due phrase_effort phrase_importance[OF assms(1)] phrase_dependency[OF assms(2)]
    by simp
  have e: "explanation today fromiso str_float t =
             Inr (if join separator ?ps \<noteq> [] then join separator ?ps else ''Balanced factors'')"
    using assms by (simp add: explanation_def Let_def)
  show "explanation today fromiso str_float t =
           Inr (if ?ps = [] then ''Balanced factors'' else join separator ?ps)"
  proof (cases "?ps = []")
    case True
    then show ?thesis unfolding e by simp
  next
    case False
    then show ?thesis unfolding e using join_phrases[OF False all] by simp
  qed
  show "explanation today fromiso str_float t = Inr ''Balanced factors'' \<longleftrightarrow> ?ps = []"
  proof (cases "?ps = []")
    case True
    then show ?thesis unfolding e by simp
  next
    case False
    then show ?thesis unfolding e using join_phrases[OF False all] by simp
  qed
qed

text \<open>
  C9. For a scored task (its due date a date or a string that parses, its importance
  an integer, its dependencies a list or missing) the explanation is the phrases that apply, joined in
  the order due date, importance, effort, dependencies: \<open>Overdue\<close> when the days left
  are negative, \<open>Due today\<close> when 0, \<open>Due in N day(s)\<close> when N is 1 to 3 and none
  beyond; \<open>High importance\<close> exactly when the importance is at least 8;
  \<open>Quick win (low effort)\<close> exactly when the hours are at most 2, missing or
  unparseable hours counting as 999; \<open>Blocks N task(s)\<close> exactly when the dependency
  list, as given, has N \<open>\<ge>\<close> 1 entries. The explanation is \<open>Balanced factors\<close> exactly
  when no phrase applies.
\<close>

theorem explanation_phrases:
  assumes due: "parse_date_safe fromiso (dict_get t ''due_date'') = Some due"
    and imp: "dict_get_default t ''importance'' (PInt 0) = PInt importance"
    and deps: "py_or (dict_get t ''dependencies'') (PList []) = PList deps"
    and days: "days = toordinal due - toordinal today"
    and hours: "hours = (case py_float str_float (dict_get_default t ''estimated_hours'' (PInt 999)) of
                           Inl e \<Rightarrow> 999 | Inr r \<Rightarrow> r)"
  shows "\<exists>due_p imp_p eff_p dep_p.
           explanation today fromiso str_float t =
             Inr (if due_p @ imp_p @ eff_p @ dep_p = [] then ''Balanced factors''
                  else join separator (due_p @ imp_p @ eff_p @ dep_p))
         \<and> (days < 0 \<longrightarrow> due_p = [''Overdue''])
         \<and> (days = 0 \<longrightarrow> due_p = [''Due today''])
         \<and> (1 \<le> days \<and> days \<le> 3 \<longrightarrow> due_p = [''Due in '' @ str_int_py days @ '' day(s)''])
         \<and> (3 < days \<longrightarrow> due_p = [])
         \<and> imp_p = (if 8 \<le> importance then [''High importance''] else [])
         \<and> eff_p = (if hours \<le> 2 then [''Quick win (low effort)''] else [])
         \<and> dep_p = (if 1 \<le> length deps then [''Blocks '' @ str_nat (length deps) @ '' task(s)'']
                     else [])
         \<and> (explanation today fromiso str_float t = Inr ''Balanced factors''
              \<longleftrightarrow> due_p @ imp_p @ eff_p @ dep_p = [])
         \<and> (t ''estimated_hours'' = None \<longrightarrow> hours = 999)
         \<and> (\<forall>s. t ''estimated_hours'' = Some (PStr s) \<and> str_float s = None \<longrightarrow> hours = 999)"
proof -
  have i: "importance_parts t = Inr (if 8 \<le> importance then [''High importance''] else [])"
    using imp by (simp add: importance_parts_def)
  have d: "dependency_parts t =
             Inr (if 1 \<le> length deps then [''Blocks '' @ str_nat (length deps) @ '' task(s)'']
                  else [])"
    using deps by (cases deps) (simp_all add: dependency_parts_def)
  have e: "effort_parts str_float t = (if hours \<le> 2 then [''Quick win (low effort)''] else [])"
    using hours by (simp add: effort_parts_def)
  have u: "(days < 0 \<longrightarrow> due_parts today fromiso t = [''Overdue''])
         \<and> (days = 0 \<longrightarrow> due_parts today fromiso t = [''Due today''])
         \<and> (1 \<le> days \<and> days \<le> 3 \<longrightarrow>
               due_parts today fromiso t = [''Due in '' @ str_int_py days @ '' day(s)''])
         \<and> (3 < days \<longrightarrow> due_parts today fromiso t = [])"
    using due days by (simp add: due_parts_def Let_def)
  have h: "(t ''estimated_hours'' = None \<longrightarrow> hours = 999)
         \<and> (\<forall>s. t ''estimated_hours'' = Some (PStr s) \<and> str_float s = None \<longrightarrow> hours = 999)"
    using hours by (simp add: dict_get_default_def)
  let ?D = "due_parts today fromiso t"
  let ?I = "if 8 \<le> importance then [''High importance''] else []"
  let ?E = "if hours \<le> 2 then [''Quick win (low effort)''] else []"
  let ?B = "if 1 \<le> length deps then [''Blocks '' @ str_nat (length deps) @ '' task(s)''] else []"
  have j: "explanation today fromiso str_float t =
             Inr (if ?D @ ?I @ ?E @ ?B = [] then ''Balanced factors''
                  else join separator (?D @ ?I @ ?E @ ?B))"
    using explanation_joined(1)[OF i d, of today fromiso str_float] unfolding e .
  have b: "explanation today fromiso str_float t = Inr ''Balanced factors''
             \<longleftrightarrow> ?D @ ?I @ ?E @ ?B = []"
    using explanation_joined(2)[OF i d, of today fromiso str_float] unfolding e .
  have "explanation today fromiso str_float t =
             Inr (if ?D @ ?I @ ?E @ ?B = [] then ''Balanced factors''
                  else join separator (?D @ ?I @ ?E @ ?B))
         \<and> (days < 0 \<longrightarrow> ?D = [''Overdue''])
         \<and> (days = 0 \<longrightarrow> ?D = [''Due today''])
         \<and> (1 \<le> days \<and> days \<le> 3 \<longrightarrow> ?D = [''Due in '' @ str_int_py days @ '' day(s)''])
         \<and> (3 < days \<longrightarrow> ?D = [])
         \<and> ?I = ?I \<and> ?E = ?E \<and> ?B = ?B
         \<and> (explanation today fromiso str_float t = Inr ''Balanced factors''
              \<longleftrightarrow> ?D @ ?I @ ?E @ ?B = [])
         \<and> (t ''estimated_hours'' = None \<longrightarrow> hours = 999)
         \<and> (\<forall>s. t ''estimated_hours'' = Some (PStr s) \<and> str_float s = None \<longrightarrow> hours = 999)"
    using j b u h by (intro conjI) (blast | rule refl)+
  then show ?thesis
    by (intro exI[of _ ?D] exI[of _ ?I] exI[of _ ?E] exI[of _ ?B])
qed

theorem explanation_phrases_witness:
  "explanation (Date 739585) (\<lambda>s. None) (\<lambda>s. None)
     [''due_date'' \<mapsto> PDate (Date 739587), ''importance'' \<mapsto> PInt 9,
      ''estimated_hours'' \<mapsto> PFloat (3 / 2), ''dependencies'' \<mapsto> PList [PInt 4, PInt 4],
      ''score'' \<mapsto> PFloat 7]
     = Inr (''Due in 2 day(s)'' @ separator @ ''High importance'' @ separator
            @ ''Quick win (low effort)'' @ separator @ ''Blocks 2 task(s)'')
   \<and> explanation (Date 739585) (\<lambda>s. None) (\<lambda>s. None)
     [''due_date'' \<mapsto> PDate (Date 739600), ''importance'' \<mapsto> PInt 5,
      ''estimated_hours'' \<mapsto> PStr ''soon'', ''score'' \<mapsto> PFloat 3]
     = Inr ''Balanced factors''"
proof -
  have two: "str_nat (Suc (Suc 0)) = ''2''" "str_nat 2 = ''2''"
    by (simp_all add: str_nat.simps[of "Suc (Suc 0)"] str_nat.simps[of 2])
  show ?thesis
  using explanation_phrases
    [of "\<lambda>s. None" "[''due_date'' \<mapsto> PDate (Date 739587), ''importance'' \<mapsto> PInt 9,
          ''estimated_hours'' \<mapsto> PFloat (3 / 2), ''dependencies'' \<mapsto> PList [PInt 4, PInt 4],
          ''score'' \<mapsto> PFloat 7]"
        "Date 739587" 9 "[PInt 4, PInt 4]" 2 "Date 739585" "3 / 2" "\<lambda>s. None"]
    explanation_phrases
    [of "\<lambda>s. None" "[''due_date'' \<mapsto> PDate (Date 739600), ''importance'' \<mapsto> PInt 5,
          ''estimated_hours'' \<mapsto> PStr ''soon'', ''score'' \<mapsto> PFloat 3]"
        "Date 739600" 5 "[]" 15 "Date 739585" 999 "\<lambda>s. None"]
  by (simp add: explanation_def importance_parts_def dependency_parts_def due_parts_def
      effort_parts_def dict_get_def dict_get_default_def py_or_def str_int_py_def
      two Let_def)
qed

text \<open>
  The suggest operation puts exactly these explanations into its answer: every entry of
  \<open>top_3\<close> is a scored task with the explanation of that task stored under
  \<open>'explanation'\<close>.
\<close>

lemma explain_loop_entries:
  "explain_loop today fromiso str_float ts acc = Inr r \<Longrightarrow>
     \<exists>r'. r = acc @ r'
        \<and> list_all2 (\<lambda>t x. \<exists>e. explanation today fromiso str_float t = Inr e
                               \<and> x = t(''explanation'' \<mapsto> PStr e)) ts r'"
proof (induction ts arbitrary: acc)
  case Nil
  then show ?case by simp
next
  case (Cons t ts)
  then obtain e where e: "explanation today fromiso str_float t = Inr e"
    and rec: "explain_loop today fromiso str_float ts (acc @ [t(''explanation'' \<mapsto> PStr e)]) = Inr r"
    by (auto split: sum.splits)
  from Cons.IH[OF rec] obtain r' where r': "r = (acc @ [t(''explanation'' \<mapsto> PStr e)]) @ r'"
    "list_all2 (\<lambda>t x. \<exists>e. explanation today fromiso str_float t = Inr e
                               \<and> x = t(''explanation'' \<mapsto> PStr e)) ts r'"
    by blast
  have "r = acc @ (t(''explanation'' \<mapsto> PStr e)) # r'"
    using r'(1) by simp
  moreover have "list_all2 (\<lambda>t x. \<exists>e. explanation today fromiso str_float t = Inr e
                               \<and> x = t(''explanation'' \<mapsto> PStr e)) (t # ts)
                   ((t(''explanation'' \<mapsto> PStr e)) # r')"
    using e r'(2) by simp
  ultimately show ?case by blast
qed

lemma check_and_respond_cycles_bad_request:
  assumes "check_and_respond_cycles str_int ts = Inr (Some r)"
  shows "\<exists>found. r = Bad_request ''Circular dependencies detected'' found"
proof (cases "detect_circular_dependencies str_int ts")
  case (Inl e)
  then show ?thesis using assms by (simp add: check_and_respond_cycles_def)
next
  case (Inr found)
  then have "r = Bad_request ''Circular dependencies detected'' found"
    using assms by (simp add: check_and_respond_cycles_def split: if_splits)
  then show ?thesis ..
qed


lemma suggest_tasks_explanations:
  assumes "suggest_tasks today fromiso str_int str_float batch = Inr (Ok_top_3 top3)"
    and "x \<in> set top3"
  shows "\<exists>scored t e. score_tasks today fromiso str_float (assign_ids batch) DEFAULT_WEIGHTS = Inr scored
           \<and> t \<in> set scored \<and> explanation today fromiso str_float t = Inr e
           \<and> x = t(''explanation'' \<mapsto> PStr e)"
proof -
  obtain scored with_expl where
    sc: "score_tasks today fromiso str_float (assign_ids batch) DEFAULT_WEIGHTS = Inr scored"
    and ex: "explain_loop today fromiso str_float scored [] = Inr with_expl"
    and top: "top3 = take 3 (sorted_by_score_reverse with_expl)"
  proof (cases "check_and_respond_cycles str_int (assign_ids batch)")
    case (Inl e)
    then show ?thesis using assms(1) by (simp add: suggest_tasks_def)
  next
    case (Inr resp)
    show ?thesis
    proof (cases resp)
      case (Some r)
      then obtain found where "r = Bad_request ''Circular dependencies detected'' found"
        using Inr check_and_respond_cycles_bad_request by blast
      then show ?thesis using assms(1) Inr Some by (simp add: suggest_tasks_def)
    next
      case None
      note none = this
      show ?thesis
      proof (cases "score_tasks today fromiso str_float (assign_ids batch) DEFAULT_WEIGHTS")
        case (Inl e)
        then show ?thesis using assms(1) Inr none by (simp add: suggest_tasks_def)
      next
        case scored: (Inr scored)
        show ?thesis
        proof (cases "explain_loop today fromiso str_float scored []")
          case (Inl e)
          then show ?thesis using assms(1) Inr none scored by (simp add: suggest_tasks_def)
        next
          case with_expl: (Inr with_expl)
          then have "top3 = take 3 (sorted_by_score_reverse with_expl)"
            using assms(1) Inr none scored by (simp add: suggest_tasks_def)
          then show ?thesis using that scored with_expl by blast
        qed
      qed
    qed
  qed
  have "x \<in> set (sorted_by_score_reverse with_expl)"
    using assms(2) unfolding top by (rule in_set_takeD)
  then have "x \<in> set with_expl"
    by (simp add: sorted_by_score_reverse_def)
  then obtain i where i: "i < length with_expl" "with_expl ! i = x"
    by (auto simp: in_set_conv_nth)
  have all2: "list_all2 (\<lambda>t x. \<exists>e. explanation today fromiso str_float t = Inr e
                               \<and> x = t(''explanation'' \<mapsto> PStr e)) scored with_expl"
    using explain_loop_entries[OF ex] by simp
  then have len: "length scored = length with_expl"
    by (rule list_all2_lengthD)
  have "\<exists>e. explanation today fromiso str_float (scored ! i) = Inr e
             \<and> with_expl ! i = (scored ! i)(''explanation'' \<mapsto> PStr e)"
    using list_all2_nthD2[OF all2 i(1)] .
  moreover have "scored ! i \<in> set scored"
    using i(1) len by simp
  ultimately have "\<exists>t e. t \<in> set scored \<and> explanation today fromiso str_float t = Inr e
                     \<and> x = t(''explanation'' \<mapsto> PStr e)"
    using i(2) by blast
  then show ?thesis using sc by blast
qed

subsection \<open>The analyze operation\<close>

text \<open>
  C7. A batch of one task with id 0 that depends on \<open>[0]\<close>, itself, is not rejected:
  \<open>assign_ids\<close> keeps the id 0, but the detector reads \<open>t.get("id") or (idx + 1)\<close>,
  takes the 0 for a missing id and files the task under 1, so that the edge from 0 to 0
  becomes an edge from 1 to 0 and no cycle is found. The operation answers 200 with
  the scored task.
\<close>

theorem analyze_tasks_id_zero_self_dependency:
  "analyze_tasks today fromiso str_int str_float
     [[''id'' \<mapsto> PInt 0, ''title'' \<mapsto> PStr ''a'', ''due_date'' \<mapsto> PDate today,
       ''estimated_hours'' \<mapsto> PFloat 1, ''importance'' \<mapsto> PInt 5,
       ''dependencies'' \<mapsto> PList [PInt 0]]]
   = Inr (Ok_tasks
     [[''id'' \<mapsto> PInt 0, ''title'' \<mapsto> PStr ''a'', ''due_date'' \<mapsto> PDate today,
       ''estimated_hours'' \<mapsto> PFloat 1, ''importance'' \<mapsto> PInt 5,
       ''dependencies'' \<mapsto> PList [PInt 0], ''score'' \<mapsto> PFloat (64 / 10)]])"
proof -
  have r: "py_round (32 / 5) 3 = 32 / 5"
    by (simp add: py_round_def round_half_even_def)
  have d: "detect_circular_dependencies str_int
     [[''id'' \<mapsto> PInt 0, ''title'' \<mapsto> PStr ''a'', ''due_date'' \<mapsto> PDate today,
       ''estimated_hours'' \<mapsto> PFloat 1, ''importance'' \<mapsto> PInt 5,
       ''dependencies'' \<mapsto> PList [PInt 0]]] = Inr []"
    by (simp add: detect_circular_dependencies_def task_id_def dict_get_def py_or_def
        graph_get_def canonical_def dfs.simps Let_def)
  have p: "calculate_priority today fromiso str_float
      [''id'' \<mapsto> PInt 0, ''title'' \<mapsto> PStr ''a'', ''due_date'' \<mapsto> PDate today,
       ''estimated_hours'' \<mapsto> PFloat 1, ''importance'' \<mapsto> PInt 5,
       ''dependencies'' \<mapsto> PList [PInt 0]]
      [[''id'' \<mapsto> PInt 0, ''title'' \<mapsto> PStr ''a'', ''due_date'' \<mapsto> PDate today,
       ''estimated_hours'' \<mapsto> PFloat 1, ''importance'' \<mapsto> PInt 5,
       ''dependencies'' \<mapsto> PList [PInt 0]]] DEFAULT_WEIGHTS = Inr (32 / 5)"
    by (simp add: calculate_priority_def calculate_effort_score_def calculate_urgency_def
        dict_get_def dict_get_default_def py_or_def weight_def DEFAULT_WEIGHTS_def r)
  show ?thesis
    by (simp add: analyze_tasks_def assign_ids_def check_and_respond_cycles_def d
        score_tasks_def p sorted_by_score_reverse_def)
qed

text \<open>
  Apart from that, the operation does what C7 says. For a batch the serializer accepts
  whose ids, once assigned, are distinct and not 0: it answers 400 with the detector's
  cycles, which are not empty, when the dependency graph of the batch has a cycle, and
  otherwise 200 with one scored entry for each task, in descending order of score.
\<close>

lemma collect_deps_ints:
  "set (collect_deps str_int (map PInt ds) seen) = set seen \<union> set ds"
  by (induction ds arbitrary: seen) auto

lemma edges_update:
  assumes "k \<notin> keys g"
  shows "edges (AList.update k v g) = edges g \<union> {k} \<times> set v"
proof -
  have none: "map_of g k = None"
    using assms by (simp add: keys_def map_of_eq_None_iff)
  have "graph_get (AList.update k v g) u = (if u = k then v else graph_get g u)" for u
    by (simp add: graph_get_def update_conv')
  moreover have "graph_get g k = []"
    using none by (simp add: graph_get_def)
  ultimately show ?thesis
    by (auto simp: edges_def split: if_splits)
qed

lemma build_graph_step:
  assumes "plain t"
  shows "\<exists>v. (\<forall>g idx. build_graph str_int idx (t # ts) g
                 = build_graph str_int (Suc idx) ts (AList.update (id_of t) v g))
             \<and> {id_of t} \<times> set v = batch_edges [t]"
proof -
  from assms obtain i where i: "t ''id'' = Some (PInt i)" "i \<noteq> 0"
    by (auto simp: plain_def)
  have tid: "task_id str_int idx t = Inr i" for idx
    using i by (simp add: task_id_def dict_get_def py_or_def)
  have idt: "id_of t = i" using i by (simp add: id_of_def)
  show ?thesis
  proof (cases "t ''dependencies''")
    case None
    then have "py_iter (py_or (dict_get t ''dependencies'') (PList [])) = Inr []"
      by (simp add: dict_get_def py_or_def)
    then have "\<forall>g idx. build_graph str_int idx (t # ts) g
                 = build_graph str_int (Suc idx) ts (AList.update (id_of t) [] g)"
      using tid idt by simp
    moreover have "{id_of t} \<times> set [] = batch_edges [t]"
      using None by (simp add: batch_edges_def)
    ultimately show ?thesis by blast
  next
    case (Some v)
    then obtain ds where ds: "t ''dependencies'' = Some (PList (map PInt ds))"
      using assms by (auto simp: plain_def)
    have "py_iter (py_or (dict_get t ''dependencies'') (PList [])) = Inr (map PInt ds)"
      using ds by (simp add: dict_get_def py_or_def)
    then have "\<forall>g idx. build_graph str_int idx (t # ts) g
                 = build_graph str_int (Suc idx) ts
                     (AList.update (id_of t) (collect_deps str_int (map PInt ds) []) g)"
      using tid idt by simp
    moreover have "{id_of t} \<times> set (collect_deps str_int (map PInt ds) []) = batch_edges [t]"
      using ds i idt by (auto simp: batch_edges_def collect_deps_ints dest: map_inj_on[of PInt, OF _ inj_onI])
    ultimately show ?thesis by blast
  qed
qed

lemma batch_edges_Cons: "batch_edges (t # ts) = batch_edges [t] \<union> batch_edges ts"
  by (auto simp: batch_edges_def)

lemma build_graph_edges:
  assumes "\<forall>t \<in> set ts. plain t" and "distinct (map id_of ts)"
    and "\<forall>t \<in> set ts. id_of t \<notin> keys g"
  shows "\<exists>g'. build_graph str_int idx ts g = Inr g' \<and> edges g' = edges g \<union> batch_edges ts"
  using assms
proof (induction ts arbitrary: idx g)
  case Nil
  then show ?case by (simp add: batch_edges_def)
next
  case (Cons t ts)
  then have "plain t" by simp
  then obtain v where step: "\<And>g idx. build_graph str_int idx (t # ts) g
                 = build_graph str_int (Suc idx) ts (AList.update (id_of t) v g)"
    and ev: "{id_of t} \<times> set v = batch_edges [t]"
    using build_graph_step[of t str_int ts] by blast
  let ?g = "AList.update (id_of t) v g"
  have new: "id_of t \<notin> keys g" using Cons.prems(3) by simp
  have k: "\<forall>u \<in> set ts. id_of u \<notin> keys ?g"
    using Cons.prems(2,3) by (auto simp: keys_update image_iff)
  obtain g' where g': "build_graph str_int (Suc idx) ts ?g = Inr g'"
    "edges g' = edges ?g \<union> batch_edges ts"
    using Cons.IH[of ?g "Suc idx"] Cons.prems(1,2) k by auto
  have "edges g' = edges g \<union> batch_edges (t # ts)"
    using g'(2) edges_update[OF new, of v] ev batch_edges_Cons[of t ts] by auto
  then show ?case
    using g'(1) step by simp
qed

lemma assign_ids_from_validated:
  "\<forall>t \<in> set ts. validated t \<Longrightarrow>
     \<forall>t' \<in> set (assign_ids_from i ts). validated t' \<and> (\<exists>k. t' ''id'' = Some (PInt k))"
proof (induction ts arbitrary: i)
  case Nil
  then show ?case by simp
next
  case (Cons t ts)
  have "validated t" using Cons.prems by simp
  then have "validated (t(''id'' \<mapsto> PInt (int i + 1)))"
    by (simp add: validated_def)
  moreover have "t ''id'' \<noteq> None \<longrightarrow> (\<exists>k. t ''id'' = Some (PInt k))"
    using \<open>validated t\<close> by (auto simp: validated_def)
  ultimately show ?case
    using Cons.IH[of "Suc i"] Cons.prems by auto
qed

lemma validated_priority:
  assumes "validated t"
  shows "\<exists>sc. calculate_priority today fromiso str_float t all_tasks weights = Inr sc"
proof -
  from assms obtain d h i where f: "t ''due_date'' = Some (PDate d)"
    "t ''estimated_hours'' = Some (PFloat h)" "0 \<le> h" "t ''importance'' = Some (PInt i)"
    by (auto simp: validated_def)
  have len: "\<exists>n. py_len (py_or (dict_get t ''dependencies'') (PList [])) = Inr n"
    using assms by (auto simp: validated_def dict_get_def py_or_def)
  have "h + 1 \<noteq> 0" using f(3) by linarith
  then show ?thesis
    using f len
    by (auto simp: calculate_priority_def calculate_effort_score_def dict_get_default_def)
qed

lemma score_loop_entries:
  assumes "\<forall>t \<in> set ts. \<exists>sc. calculate_priority today fromiso str_float t all_tasks weights = Inr sc"
  shows "\<exists>r. score_loop today fromiso str_float all_tasks weights ts scored = Inr (scored @ r)
           \<and> list_all2 (\<lambda>t x. \<exists>sc. calculate_priority today fromiso str_float t all_tasks weights = Inr sc
                                  \<and> x = t(''score'' \<mapsto> PFloat sc)) ts r"
  using assms
proof (induction ts arbitrary: scored)
  case Nil
  then show ?case by simp
next
  case (Cons t ts)
  then obtain sc where sc: "calculate_priority today fromiso str_float t all_tasks weights = Inr sc"
    by auto
  obtain r where r: "score_loop today fromiso str_float all_tasks weights ts
                       (scored @ [t(''score'' \<mapsto> PFloat sc)])
                     = Inr ((scored @ [t(''score'' \<mapsto> PFloat sc)]) @ r)"
    "list_all2 (\<lambda>t x. \<exists>sc. calculate_priority today fromiso str_float t all_tasks weights = Inr sc
                                  \<and> x = t(''score'' \<mapsto> PFloat sc)) ts r"
  proof -
    have "\<forall>t \<in> set ts. \<exists>sc. calculate_priority today fromiso str_float t all_tasks weights = Inr sc"
      using Cons.prems by simp
    from Cons.IH[OF this, of "scored @ [t(''score'' \<mapsto> PFloat sc)]"] that show ?thesis
      by blast
  qed
  have "score_loop today fromiso str_float all_tasks weights (t # ts) scored
          = Inr (scored @ (t(''score'' \<mapsto> PFloat sc)) # r)"
    using sc r(1) by simp
  moreover have "list_all2 (\<lambda>t x. \<exists>sc. calculate_priority today fromiso str_float t all_tasks weights = Inr sc
                                  \<and> x = t(''score'' \<mapsto> PFloat sc)) (t # ts) ((t(''score'' \<mapsto> PFloat sc)) # r)"
    using sc r(2) by simp
  ultimately show ?case by blast
qed

lemma sorted_by_score_reverse_props:
  "mset (sorted_by_score_reverse xs) = mset xs"
  "sorted_wrt (\<lambda>a b. score_of b \<le> score_of a) (sorted_by_score_reverse xs)"
proof -
  show "mset (sorted_by_score_reverse xs) = mset xs"
    by (simp add: sorted_by_score_reverse_def)
  have "sorted (map (\<lambda>x. - score_of x) (sorted_by_score_reverse xs))"
    by (simp add: sorted_by_score_reverse_def)
  then show "sorted_wrt (\<lambda>a b. score_of b \<le> score_of a) (sorted_by_score_reverse xs)"
    by (simp add: sorted_map)
qed

lemma detect_iff_cycle:
  assumes "\<forall>t \<in> set ts. plain t" and "distinct (map id_of ts)"
  shows "\<exists>found. detect_circular_dependencies str_int ts = Inr found
           \<and> (found \<noteq> [] \<longleftrightarrow> (\<exists>v. (v, v) \<in> (batch_edges ts)\<^sup>+))"
proof -
  obtain g where g: "build_graph str_int 0 ts [] = Inr g" "edges g = edges [] \<union> batch_edges ts"
    using build_graph_edges[OF assms, of "[]" str_int 0] by (auto simp: keys_def)
  have "edges [] = {}" by (simp add: edges_def graph_get_def)
  then have e: "edges g = batch_edges ts" using g(2) by simp
  have "detect_circular_dependencies str_int ts = Inr (cycles (visit_all g (map fst g) initial))"
    using g(1) by (simp add: detect_circular_dependencies_def initial_def)
  then show ?thesis
    using visit_all_detects[of g] by (simp add: has_cycle_def e)
qed

theorem analyze_tasks_correct:
  assumes val: "\<forall>t \<in> set batch. validated t"
    and dist: "distinct (map id_of (assign_ids batch))"
    and nz: "\<forall>t \<in> set (assign_ids batch). id_of t \<noteq> 0"
  shows "((\<exists>v. (v, v) \<in> (batch_edges (assign_ids batch))\<^sup>+) \<longrightarrow>
           (\<exists>found. found \<noteq> []
              \<and> detect_circular_dependencies str_int (assign_ids batch) = Inr found
              \<and> analyze_tasks today fromiso str_int str_float batch
                  = Inr (Bad_request ''Circular dependencies detected'' found)))
       \<and> ((\<nexists>v. (v, v) \<in> (batch_edges (assign_ids batch))\<^sup>+) \<longrightarrow>
           (\<exists>scored out.
              analyze_tasks today fromiso str_int str_float batch = Inr (Ok_tasks out)
              \<and> list_all2 (\<lambda>t x. \<exists>sc. calculate_priority today fromiso str_float t
                                          (assign_ids batch) DEFAULT_WEIGHTS = Inr sc
                                      \<and> x = t(''score'' \<mapsto> PFloat sc)) (assign_ids batch) scored
              \<and> mset out = mset scored
              \<and> sorted_wrt (\<lambda>a b. score_of b \<le> score_of a) out))"
proof -
  let ?ts = "assign_ids batch"
  have v: "\<forall>t \<in> set ?ts. validated t \<and> (\<exists>k. t ''id'' = Some (PInt k))"
    using assign_ids_from_validated[OF val] by (simp add: assign_ids_def)
  have pl: "\<forall>t \<in> set ?ts. plain t"
  proof
    fix t assume t: "t \<in> set ?ts"
    then obtain k where k: "t ''id'' = Some (PInt k)" using v by blast
    then have "k \<noteq> 0" using nz t by (auto simp: id_of_def)
    then show "plain t"
      using k v t by (auto simp: plain_def validated_def)
  qed
  obtain found where found: "detect_circular_dependencies str_int ?ts = Inr found"
    "found \<noteq> [] \<longleftrightarrow> (\<exists>v. (v, v) \<in> (batch_edges ?ts)\<^sup>+)"
    using detect_iff_cycle[OF pl dist] by blast
  have pr: "\<forall>t \<in> set ?ts. \<exists>sc. calculate_priority today fromiso str_float t ?ts DEFAULT_WEIGHTS = Inr sc"
    using v validated_priority by blast
  obtain scored where scored: "score_tasks today fromiso str_float ?ts DEFAULT_WEIGHTS = Inr scored"
    "list_all2 (\<lambda>t x. \<exists>sc. calculate_priority today fromiso str_float t ?ts DEFAULT_WEIGHTS = Inr sc
                                      \<and> x = t(''score'' \<mapsto> PFloat sc)) ?ts scored"
    using score_loop_entries[OF pr, of "[]"] by (auto simp: score_tasks_def)
  show ?thesis
  proof (intro conjI impI)
    assume "\<exists>v. (v, v) \<in> (batch_edges ?ts)\<^sup>+"
    then have "found \<noteq> []" using found(2) by simp
    then have "analyze_tasks today fromiso str_int str_float batch
                  = Inr (Bad_request ''Circular dependencies detected'' found)"
      using found(1) by (simp add: analyze_tasks_def check_and_respond_cycles_def)
    then show "\<exists>found. found \<noteq> []
              \<and> detect_circular_dependencies str_int ?ts = Inr found
              \<and> analyze_tasks today fromiso str_int str_float batch
                  = Inr (Bad_request ''Circular dependencies detected'' found)"
      using found(1) \<open>found \<noteq> []\<close> by blast
  next
    assume "\<nexists>v. (v, v) \<in> (batch_edges ?ts)\<^sup>+"
    then have "found = []" using found(2) by simp
    then have "analyze_tasks today fromiso str_int str_float batch
                 = Inr (Ok_tasks (sorted_by_score_reverse scored))"
      using found(1) scored(1) by (simp add: analyze_tasks_def check_and_respond_cycles_def)
    then show "\<exists>scored out.
              analyze_tasks today fromiso str_int str_float batch = Inr (Ok_tasks out)
              \<and> list_all2 (\<lambda>t x. \<exists>sc. calculate_priority today fromiso str_float t
                                          ?ts DEFAULT_WEIGHTS = Inr sc
                                      \<and> x = t(''score'' \<mapsto> PFloat sc)) ?ts scored
              \<and> mset out = mset scored
              \<and> sorted_wrt (\<lambda>a b. score_of b \<le> score_of a) out"
      using scored(2) sorted_by_score_reverse_props[of scored] by blast
  qed
qed

theorem analyze_tasks_correct_witness:
  "analyze_tasks (Date 739585) (\<lambda>s. None) (\<lambda>s. None) (\<lambda>s. None)
     [[''id'' \<mapsto> PInt 1, ''title'' \<mapsto> PStr ''a'', ''due_date'' \<mapsto> PDate (Date 739585),
       ''estimated_hours'' \<mapsto> PFloat 1, ''importance'' \<mapsto> PInt 5,
       ''dependencies'' \<mapsto> PList (map PInt [2])],
      [''title'' \<mapsto> PStr ''b'', ''due_date'' \<mapsto> PDate (Date 739585),
       ''estimated_hours'' \<mapsto> PFloat 1, ''importance'' \<mapsto> PInt 5,
       ''dependencies'' \<mapsto> PList (map PInt [1])]]
   = Inr (Bad_request ''Circular dependencies detected'' [[1, 2, 1]])"
proof -
  let ?a = "[''id'' \<mapsto> PInt 1, ''title'' \<mapsto> PStr ''a'', ''due_date'' \<mapsto> PDate (Date 739585),
       ''estimated_hours'' \<mapsto> PFloat 1, ''importance'' \<mapsto> PInt 5,
       ''dependencies'' \<mapsto> PList (map PInt [2])]"
  let ?b = "[''title'' \<mapsto> PStr ''b'', ''due_date'' \<mapsto> PDate (Date 739585),
       ''estimated_hours'' \<mapsto> PFloat 1, ''importance'' \<mapsto> PInt 5,
       ''dependencies'' \<mapsto> PList (map PInt [1])]"
  have l2: "\<exists>ds. [PInt 2] = map PInt ds" by (rule exI[of _ "[2]"]) simp
  have l1: "\<exists>ds. [PInt 1] = map PInt ds" by (rule exI[of _ "[1]"]) simp
  have val: "\<forall>t \<in> set [?a, ?b]. validated t"
    using l1 l2 by (simp add: validated_def)
  have ids: "assign_ids [?a, ?b] = [?a, ?b(''id'' \<mapsto> PInt 2)]"
    by (simp add: assign_ids_def)
  have dist: "distinct (map id_of (assign_ids [?a, ?b]))"
    unfolding ids by (simp add: id_of_def)
  have nz: "\<forall>t \<in> set (assign_ids [?a, ?b]). id_of t \<noteq> 0"
    unfolding ids by (simp add: id_of_def)
  have d: "detect_circular_dependencies (\<lambda>s. None) (assign_ids [?a, ?b]) = Inr [[1, 2, 1]]"
    unfolding ids
    by (simp add: detect_circular_dependencies_def task_id_def dict_get_def py_or_def
        graph_get_def canonical_def dfs.simps Let_def)
  have cyc: "\<exists>v. (v, v) \<in> (batch_edges (assign_ids [?a, ?b]))\<^sup>+"
  proof -
    have "(1, 2) \<in> batch_edges (assign_ids [?a, ?b])"
      unfolding ids batch_edges_def by (auto intro!: exI[of _ "[2]"])
    moreover have "(2, 1) \<in> batch_edges (assign_ids [?a, ?b])"
      unfolding ids batch_edges_def by (auto intro!: exI[of _ "[1]"])
    ultimately have "(1, 1) \<in> (batch_edges (assign_ids [?a, ?b]))\<^sup>+"
      by (meson trancl.simps)
    then show ?thesis by blast
  qed
  show ?thesis
    using analyze_tasks_correct[OF val dist nz, of "\<lambda>s. None" "Date 739585" "\<lambda>s. None" "\<lambda>s. None"] cyc d
    by auto
qed

end
